theory Spec2Isabelle
  imports Complex_Main
begin

section \<open>JavaScript numbers\<close>

text \<open>
  Every number of the component is an IEEE-754 binary64 value. The counters (\<open>habits\<close>,
  \<open>weeks\<close>, \<open>completedCount\<close>, \<open>total\<close>) only ever hold integers far below \<open>2^53\<close>,
  on which \<open>+\<close>, \<open>*\<close>, \<open>Math.min\<close> and \<open>Math.max\<close> are exact: they are modelled as
  \<open>int\<close>. The percentage is different: \<open>(completedCount / total) * 100\<close> divides and
  multiplies in binary64, and each of the two operations rounds its exact result to the
  nearest value with a 53-bit significand, ties to the even significand. A binary64 value
  is modelled by the rational it denotes and the rounding is written out. The exponent
  range is not modelled (no overflow, no subnormals): the quotients here are 0 or lie
  in \<open>[1/120, 1]\<close>, and the products lie in \<open>[0, 100]\<close>.
\<close>

fun bitlen :: "nat \<Rightarrow> nat" where
  "bitlen n = (if n = 0 then 0 else Suc (bitlen (n div 2)))"

declare bitlen.simps [simp del]

text \<open>The binary exponent \<open>\<lfloor>log\<^sub>2 x\<rfloor>\<close> of a positive rational.\<close>

definition ilog2 :: "rat \<Rightarrow> int" where
  "ilog2 x = (if 1 \<le> x then int (bitlen (nat \<lfloor>x\<rfloor>)) - 1
              else - int (bitlen (nat (\<lceil>1 / x\<rceil> - 1))))"

text \<open>Round to the nearest integer, ties to even.\<close>

definition rne :: "rat \<Rightarrow> int" where
  "rne x = (let f = \<lfloor>x\<rfloor>; d = x - of_int f in
            if d < 1 / 2 then f
            else if 1 / 2 < d then f + 1
            else if even f then f else f + 1)"

text \<open>Rounding of an exact result to binary64: 53 significant bits, so the unit in the
  last place of \<open>x\<close> is \<open>2 ^ (\<lfloor>log\<^sub>2 |x|\<rfloor> - 52)\<close>.\<close>

definition fl :: "rat \<Rightarrow> rat" where
  "fl x = (if x = 0 then 0
           else let a = \<bar>x\<bar>; u = power_int 2 (ilog2 a - 52)
                in sgn x * of_int (rne (a / u)) * u)"

text \<open>The operators \<open>/\<close> and \<open>*\<close> of JavaScript on binary64 operands.\<close>

definition fdiv :: "rat \<Rightarrow> rat \<Rightarrow> rat" where
  "fdiv x y = fl (x / y)"

definition fmul :: "rat \<Rightarrow> rat \<Rightarrow> rat" where
  "fmul x y = fl (x * y)"

text \<open>\<open>Math.round\<close>: the nearest integer, a tie going up.\<close>

definition Math_round :: "rat \<Rightarrow> int" where
  "Math_round x = \<lfloor>x + 1 / 2\<rfloor>"

text \<open>\<open>Math.max(lo, Math.min(hi, value))\<close> on integers.\<close>

definition clamp :: "int \<Rightarrow> int \<Rightarrow> int \<Rightarrow> int" where
  "clamp lo hi v = max lo (min hi v)"

text \<open>The decimal text of a non-negative integer, as a template literal prints it.\<close>

definition digit :: "nat \<Rightarrow> char" where
  "digit d = ''0123456789'' ! d"

fun string_of_nat :: "nat \<Rightarrow> string" where
  "string_of_nat n =
     (if n < 10 then [digit n] else string_of_nat (n div 10) @ [digit (n mod 10)])"

declare string_of_nat.simps [simp del]


section \<open>Component state\<close>

text \<open>
  \<open>HabitData\<close> is an object of objects keyed by numbers: a sparse map from the habit
  index to a row, a row a sparse map from the time-slot index to a boolean. A missing
  key reads as \<open>undefined\<close>, here \<open>None\<close>.

  The days variant (\<open>habits\<close>, \<open>habitNames\<close>, \<open>checkedState\<close>) is the record
  \<open>tracker\<close>; the weeks variant has the same three state variables and \<open>weeks\<close>, so it
  is the extension \<open>week_tracker\<close>. The handlers the two files share word for word are
  defined once, on the record scheme.
\<close>

type_synonym row = "int \<rightharpoonup> bool"
type_synonym HabitData = "int \<rightharpoonup> row"

record tracker =
  habits :: int
  habitNames :: "string list"
  checkedState :: HabitData

record week_tracker = tracker +
  weeks :: int

definition init_days :: tracker where
  "init_days = \<lparr>habits = 3, habitNames = [''Exercise'', ''Read'', ''Meditate''],
                 checkedState = Map.empty\<rparr>"

definition init_weeks :: week_tracker where
  "init_weeks = \<lparr>habits = 3, habitNames = [''Exercise'', ''Read'', ''Meditate''],
                  checkedState = Map.empty, weeks = 4\<rparr>"


section \<open>Handlers\<close>

definition handleWeeksChange :: "int \<Rightarrow> week_tracker \<Rightarrow> week_tracker" where
  "handleWeeksChange v s = s\<lparr>weeks := clamp 1 12 v\<rparr>"

text \<open>\<open>Array(newValue - habitNames.length).fill("").map((_, i) => `Habit ${...}`)\<close>\<close>

definition generatedNames :: "nat \<Rightarrow> nat \<Rightarrow> string list" where
  "generatedNames len k = map (\<lambda>i. ''Habit '' @ string_of_nat (len + i + 1)) [0..<k]"

definition handleHabitsChange :: "int \<Rightarrow> 'a tracker_scheme \<Rightarrow> 'a tracker_scheme" where
  "handleHabitsChange v s =
     (let newValue = clamp 1 10 v;
          len = length (habitNames s);
          s' = s\<lparr>habits := newValue\<rparr>
      in if newValue > int len
         then s'\<lparr>habitNames := habitNames s @ generatedNames len (nat (newValue - int len))\<rparr>
         else s')"

text \<open>The spread \<open>...prev[habitIndex]\<close> of a missing row copies nothing.\<close>

definition setCell :: "HabitData \<Rightarrow> int \<Rightarrow> int \<Rightarrow> bool \<Rightarrow> HabitData" where
  "setCell prev habitIndex slotIndex checked =
     prev(habitIndex \<mapsto>
       (case prev habitIndex of None \<Rightarrow> Map.empty | Some r \<Rightarrow> r)(slotIndex \<mapsto> checked))"

definition handleCheckChange ::
  "int \<Rightarrow> int \<Rightarrow> bool \<Rightarrow> 'a tracker_scheme \<Rightarrow> 'a tracker_scheme" where
  "handleCheckChange habitIndex slotIndex checked s =
     s\<lparr>checkedState := setCell (checkedState s) habitIndex slotIndex checked\<rparr>"

text \<open>\<open>checkedState[habitIndex]?.[slotIndex] || false\<close>: the optional chain yields
  \<open>undefined\<close> on a missing row instead of throwing, and \<open>||\<close> turns \<open>undefined\<close> and
  \<open>false\<close> into \<open>false\<close>.\<close>

definition optIndex :: "row option \<Rightarrow> int \<Rightarrow> bool option" where
  "optIndex r k = (case r of None \<Rightarrow> None | Some m \<Rightarrow> m k)"

definition orFalse :: "bool option \<Rightarrow> bool" where
  "orFalse v = (case v of None \<Rightarrow> False | Some b \<Rightarrow> b \<or> False)"

definition isChecked :: "HabitData \<Rightarrow> int \<Rightarrow> int \<Rightarrow> bool" where
  "isChecked cs habitIndex slotIndex = orFalse (optIndex (cs habitIndex) slotIndex)"


section \<open>Derived statistics\<close>

record DerivedStats =
  completed :: int
  remaining :: int
  percentage :: int

text \<open>The inner loop \<open>for (let w = 0; w < weeks; w++)\<close>, from \<open>w\<close>, on the running
  count.\<close>

function countRow :: "HabitData \<Rightarrow> int \<Rightarrow> int \<Rightarrow> int \<Rightarrow> int \<Rightarrow> int" where
  "countRow cs h w slots cnt =
     (if w < slots
      then countRow cs h (w + 1) slots (if isChecked cs h w then cnt + 1 else cnt)
      else cnt)"
  by pat_completeness auto
termination
  by (relation "measure (\<lambda>(cs, h, w, slots, cnt). nat (slots - w))") auto

declare countRow.simps [simp del]

text \<open>The outer loop \<open>for (let h = 0; h < habits; h++)\<close>.\<close>

function countGrid :: "HabitData \<Rightarrow> int \<Rightarrow> int \<Rightarrow> int \<Rightarrow> int \<Rightarrow> int" where
  "countGrid cs h n slots cnt =
     (if h < n then countGrid cs (h + 1) n slots (countRow cs h 0 slots cnt) else cnt)"
  by pat_completeness auto
termination
  by (relation "measure (\<lambda>(cs, h, n, slots, cnt). nat (n - h))") auto

declare countGrid.simps [simp del]

definition deriveStats :: "HabitData \<Rightarrow> int \<Rightarrow> int \<Rightarrow> DerivedStats" where
  "deriveStats cs n slots =
     (let total = n * slots;
          completedCount = countGrid cs 0 n slots 0
      in \<lparr>completed = completedCount,
          remaining = total - completedCount,
          percentage = (if total > 0
                        then Math_round (fmul (fdiv (of_int completedCount) (of_int total)) 100)
                        else 0)\<rparr>)"

text \<open>The memoised value of the weeks variant, and of the days variant (\<open>habits * 7\<close>,
  \<open>d < 7\<close>).\<close>

definition stats_weeks :: "week_tracker \<Rightarrow> DerivedStats" where
  "stats_weeks s = deriveStats (checkedState s) (habits s) (weeks s)"

definition stats_days :: "tracker \<Rightarrow> DerivedStats" where
  "stats_days s = deriveStats (checkedState s) (habits s) 7"


section \<open>Sequences of operations\<close>

datatype action = Toggle int int bool | SetHabitCount int | SetWeekCount int

fun step :: "week_tracker \<Rightarrow> action \<Rightarrow> week_tracker" where
  "step s (Toggle h w b) = handleCheckChange h w b s"
| "step s (SetHabitCount v) = handleHabitsChange v s"
| "step s (SetWeekCount v) = handleWeeksChange v s"

definition run_weeks :: "action list \<Rightarrow> week_tracker" where
  "run_weeks acts = foldl step init_weeks acts"

datatype day_action = DayToggle int int bool | DaySetHabitCount int

fun day_step :: "tracker \<Rightarrow> day_action \<Rightarrow> tracker" where
  "day_step s (DayToggle h d b) = handleCheckChange h d b s"
| "day_step s (DaySetHabitCount v) = handleHabitsChange v s"

definition run_days :: "day_action list \<Rightarrow> tracker" where
  "run_days acts = foldl day_step init_days acts"

text \<open>The cells of the grid and the ones among them that read as checked.\<close>

definition grid :: "int \<Rightarrow> int \<Rightarrow> (int \<times> int) set" where
  "grid n slots = {0..<n} \<times> {0..<slots}"

definition checkedCells :: "HabitData \<Rightarrow> int \<Rightarrow> int \<Rightarrow> (int \<times> int) set" where
  "checkedCells cs n slots = {c \<in> grid n slots. isChecked cs (fst c) (snd c)}"


section \<open>The binary64 rounding stays below representable bounds\<close>

lemma bitlen_bounds: "0 < n \<Longrightarrow> 2 ^ (bitlen n - 1) \<le> n \<and> n < 2 ^ bitlen n"
proof (induction n rule: bitlen.induct)
  case (1 n)
  show ?case
  proof (cases "n div 2 = 0")
    case True
    with "1.prems" have "n = 1" by (cases n) auto
    then show ?thesis by (simp add: bitlen.simps)
  next
    case False
    then have pos: "0 < n div 2" by simp
    have n0: "n \<noteq> 0" using "1.prems" by simp
    from "1.IH" [OF n0 pos]
    have lo: "2 ^ (bitlen (n div 2) - 1) \<le> n div 2" and hi: "n div 2 < 2 ^ bitlen (n div 2)"
      by simp_all
    have b: "bitlen n = Suc (bitlen (n div 2))" using n0 by (subst bitlen.simps) simp
    have bpos: "0 < bitlen (n div 2)" using pos by (subst bitlen.simps) simp
    then have e: "bitlen (n div 2) = Suc (bitlen (n div 2) - 1)" by simp
    have "2 ^ bitlen (n div 2) = 2 * 2 ^ (bitlen (n div 2) - 1)"
      by (subst e) simp
    also have "\<dots> \<le> 2 * (n div 2)" using lo by simp
    also have "\<dots> \<le> n" by simp
    finally have l: "(2::nat) ^ (bitlen n - 1) \<le> n" using b by simp
    have "n < 2 * (n div 2 + 1)" by simp
    also have "\<dots> \<le> 2 * 2 ^ bitlen (n div 2)" using hi by simp
    finally have "n < 2 ^ bitlen n" using b by simp
    with l show ?thesis by simp
  qed
qed

lemma rne_le: "y \<le> of_int m \<Longrightarrow> rne y \<le> m"
proof -
  assume a: "y \<le> of_int m"
  have f: "\<lfloor>y\<rfloor> \<le> m" using a by (simp add: floor_le_iff)
  show ?thesis
  proof (cases "\<lfloor>y\<rfloor> = m")
    case True
    then have "y = of_int m" using a by (metis floor_le_iff of_int_floor_le order_antisym of_int_floor_le)
    then show ?thesis by (simp add: rne_def)
  next
    case False
    with f have "\<lfloor>y\<rfloor> + 1 \<le> m" by simp
    then show ?thesis using f by (simp add: rne_def Let_def)
  qed
qed

lemma rne_nonneg: "0 \<le> y \<Longrightarrow> 0 \<le> rne y"
  by (simp add: rne_def Let_def)

lemma ilog2_ge1:
  assumes "1 \<le> x"
  shows "power_int 2 (ilog2 x) \<le> x" and "x < power_int 2 (ilog2 x + 1)"
proof -
  define n where "n = nat \<lfloor>x\<rfloor>"
  have fl: "\<lfloor>x\<rfloor> = int n" using assms by (simp add: n_def)
  have n: "0 < n" using assms by (simp add: n_def)
  have b: "0 < bitlen n" using n by (subst bitlen.simps) simp
  have e1: "ilog2 x = int (bitlen n - 1)" and e2: "ilog2 x + 1 = int (bitlen n)"
    using assms b by (simp_all add: ilog2_def n_def)
  have lo: "2 ^ (bitlen n - 1) \<le> n" and hi: "n + 1 \<le> 2 ^ bitlen n"
    using bitlen_bounds [OF n] by simp_all
  have "(2::rat) ^ (bitlen n - 1) = of_nat (2 ^ (bitlen n - 1))" by simp
  also have "\<dots> \<le> of_nat n" using lo by (simp only: of_nat_le_iff)
  also have "\<dots> = of_int \<lfloor>x\<rfloor>" by (simp add: fl)
  also have "\<dots> \<le> x" by simp
  finally have r1: "2 ^ (bitlen n - 1) \<le> x" .
  show "power_int 2 (ilog2 x) \<le> x" unfolding e1 using r1 by simp
  have "x < of_int \<lfloor>x\<rfloor> + 1" by linarith
  also have "\<dots> = of_nat (n + 1)" by (simp add: fl)
  also have "\<dots> \<le> of_nat (2 ^ bitlen n)" using hi by (simp only: of_nat_le_iff)
  finally have r2: "x < 2 ^ bitlen n" by simp
  show "x < power_int 2 (ilog2 x + 1)" unfolding e2 using r2 by simp
qed

lemma ilog2_lt1:
  assumes "0 < x" and "x < 1"
  shows "power_int 2 (ilog2 x) \<le> x" and "x < power_int 2 (ilog2 x + 1)"
proof -
  define y where "y = 1 / x"
  define z where "z = \<lceil>y\<rceil>"
  define m where "m = nat (z - 1)"
  define k where "k = bitlen m"
  have y: "1 < y" using assms by (simp add: y_def)
  have z1: "y \<le> of_int z" and z2: "of_int z < y + 1"
    unfolding z_def by linarith+
  have "1 < (of_int z :: rat)" using y z1 by linarith
  then have c: "2 \<le> z" by simp
  then have m: "0 < m" and zm: "z = int m + 1" by (simp_all add: m_def)
  have kpos: "0 < k" unfolding k_def using m by (subst bitlen.simps) simp
  have e1: "ilog2 x = - int k" and e2: "ilog2 x + 1 = - int (k - 1)"
    using assms kpos by (simp_all add: ilog2_def k_def m_def z_def y_def)
  have lo: "2 ^ (k - 1) \<le> m" and hi: "m + 1 \<le> 2 ^ k"
    using bitlen_bounds [OF m] by (simp_all add: k_def)
  have xy: "x = 1 / y" using assms by (simp add: y_def)
  have "y \<le> of_int z" by (rule z1)
  also have "\<dots> = of_nat (m + 1)" by (simp add: zm)
  also have "\<dots> \<le> of_nat (2 ^ k)" using hi by (simp only: of_nat_le_iff)
  finally have "y \<le> 2 ^ k" by simp
  then have "1 / 2 ^ k \<le> 1 / y" using y by (simp add: frac_le)
  then have r1: "1 / 2 ^ k \<le> x" by (simp only: xy)
  show "power_int 2 (ilog2 x) \<le> x"
    unfolding e1 using r1 by (simp add: power_int_minus inverse_eq_divide)
  have "(2::rat) ^ (k - 1) = of_nat (2 ^ (k - 1))" by simp
  also have "\<dots> \<le> of_nat m" using lo by (simp only: of_nat_le_iff)
  also have "\<dots> = of_int z - 1" by (simp add: zm)
  also have "\<dots> < y" using z2 by linarith
  finally have "2 ^ (k - 1) < y" .
  then have "1 / y < 1 / 2 ^ (k - 1)" by (simp add: frac_less2)
  then have r2: "x < 1 / 2 ^ (k - 1)" by (simp only: xy)
  show "x < power_int 2 (ilog2 x + 1)"
    unfolding e2 using r2 by (simp add: power_int_minus inverse_eq_divide)
qed

lemma ilog2_le: "0 < x \<Longrightarrow> power_int 2 (ilog2 x) \<le> x"
  using ilog2_ge1(1) ilog2_lt1(1) by (cases "1 \<le> x") auto

lemma ilog2_less: "0 < x \<Longrightarrow> x < power_int 2 (ilog2 x + 1)"
  using ilog2_ge1(2) ilog2_lt1(2) by (cases "1 \<le> x") auto


lemma fl_nonneg: "0 \<le> x \<Longrightarrow> 0 \<le> fl x"
proof (cases "x = 0")
  case True
  then show ?thesis by (simp add: fl_def)
next
  case False
  assume "0 \<le> x"
  with False have pos: "0 < x" by simp
  have u: "(0::rat) < power_int 2 (ilog2 x - 52)" by simp
  have "0 \<le> rne (x / power_int 2 (ilog2 x - 52))"
    using pos u by (intro rne_nonneg) simp
  then show ?thesis using pos by (simp add: fl_def Let_def)
qed

lemma fl_le_int:
  assumes pos: "0 < x" and le: "x \<le> of_int n" and small: "x < 2 ^ 53"
  shows "fl x \<le> of_int n"
proof -
  define e where "e = ilog2 x"
  define j where "j = nat (52 - e)"
  have "power_int 2 e \<le> x" unfolding e_def by (rule ilog2_le [OF pos])
  also have "x < power_int 2 53" using small by simp
  finally have "e < 53" by (rule power_int_le_imp_less_exp [rotated]) simp_all
  then have ej: "e - 52 = - int j" by (simp add: j_def)
  have u: "power_int (2::rat) (e - 52) = 1 / 2 ^ j"
    by (simp add: ej power_int_minus_divide)
  have "x / (1 / 2 ^ j) = x * 2 ^ j" by simp
  also have "\<dots> \<le> of_int n * 2 ^ j" using le by simp
  also have "\<dots> = of_int (n * 2 ^ j)" by simp
  finally have "rne (x / (1 / 2 ^ j)) \<le> n * 2 ^ j" by (rule rne_le)
  then have "(of_int (rne (x / (1 / 2 ^ j))) :: rat) \<le> of_int (n * 2 ^ j)"
    by (simp only: of_int_le_iff)
  then have "of_int (rne (x / (1 / 2 ^ j))) * (1 / 2 ^ j) \<le> (of_int (n * 2 ^ j) :: rat) * (1 / 2 ^ j)"
    by (intro mult_right_mono) simp_all
  also have "\<dots> = of_int n" by simp
  finally have "of_int (rne (x / (1 / 2 ^ j))) * (1 / 2 ^ j) \<le> (of_int n :: rat)" .
  moreover have "fl x = of_int (rne (x / (1 / 2 ^ j))) * (1 / 2 ^ j)"
    using pos u by (simp add: fl_def Let_def e_def)
  ultimately show ?thesis by simp
qed

lemma percentage_bounds:
  assumes "0 \<le> c" and "c \<le> t" and "0 < t"
  shows "0 \<le> Math_round (fmul (fdiv (of_int c) (of_int t)) 100)"
    and "Math_round (fmul (fdiv (of_int c) (of_int t)) 100) \<le> 100"
proof -
  define q where "q = fdiv (of_int c) (of_int t)"
  define r where "r = fmul q 100"
  have x: "0 \<le> (of_int c / of_int t :: rat)" "(of_int c / of_int t :: rat) \<le> 1"
    using assms by simp_all
  have q0: "0 \<le> q" unfolding q_def fdiv_def using x(1) by (rule fl_nonneg)
  have q1: "q \<le> 1"
  proof (cases "of_int c / of_int t = (0::rat)")
    case True
    then show ?thesis by (simp add: q_def fdiv_def fl_def)
  next
    case False
    with x(1) have "0 < (of_int c / of_int t :: rat)" by (simp only: order_less_le) simp
    moreover have "(of_int c / of_int t :: rat) \<le> of_int 1" using x(2) by simp
    moreover have "(of_int c / of_int t :: rat) < 2 ^ 53" using x(2) by simp
    ultimately have "fl (of_int c / of_int t) \<le> of_int 1" by (rule fl_le_int)
    then show ?thesis by (simp add: q_def fdiv_def)
  qed
  have r0: "0 \<le> r" unfolding r_def fmul_def using q0 by (intro fl_nonneg) simp
  have r1: "r \<le> 100"
  proof (cases "q = 0")
    case True
    then show ?thesis by (simp add: r_def fmul_def fl_def)
  next
    case False
    with q0 have "0 < q * 100" by simp
    moreover have "q * 100 \<le> of_int 100" using q1 by simp
    moreover have "q * 100 < 2 ^ 53" using q1 by simp
    ultimately have "fl (q * 100) \<le> of_int 100" by (rule fl_le_int)
    then show ?thesis by (simp add: r_def fmul_def)
  qed
  show "0 \<le> Math_round (fmul (fdiv (of_int c) (of_int t)) 100)"
    using r0 by (simp add: Math_round_def flip: r_def q_def)
  have "r + 1 / 2 < 101" using r1 by simp
  then have "\<lfloor>r + 1 / 2\<rfloor> < 101" by (simp add: floor_less_iff)
  then show "Math_round (fmul (fdiv (of_int c) (of_int t)) 100) \<le> 100"
    by (simp add: Math_round_def flip: r_def q_def)
qed


section \<open>How far the computed percentage is from the exact one\<close>

lemma rne_error: "\<bar>of_int (rne y) - y\<bar> \<le> 1 / 2"
proof -
  define d where "d = y - of_int \<lfloor>y\<rfloor>"
  have d: "0 \<le> d" "d < 1" unfolding d_def by linarith+
  have y: "y = of_int \<lfloor>y\<rfloor> + d" by (simp add: d_def)
  consider "d < 1 / 2" | "1 / 2 < d" | "d = 1 / 2" by linarith
  then show ?thesis
  proof cases
    case 1
    then have "rne y = \<lfloor>y\<rfloor>" by (simp add: rne_def Let_def d_def)
    then show ?thesis using 1 d y by simp
  next
    case 2
    then have "rne y = \<lfloor>y\<rfloor> + 1" by (simp add: rne_def Let_def d_def)
    then show ?thesis using 2 d y by simp
  next
    case 3
    then have "rne y = \<lfloor>y\<rfloor> \<or> rne y = \<lfloor>y\<rfloor> + 1" by (simp add: rne_def Let_def d_def)
    then show ?thesis using 3 d y by auto
  qed
qed

lemma fl_error:
  assumes "0 < x"
  shows "\<bar>fl x - x\<bar> \<le> power_int 2 (ilog2 x - 53)"
proof -
  define u :: rat where "u = power_int 2 (ilog2 x - 52)"
  have u: "0 < u" by (simp add: u_def)
  have half: "power_int 2 (ilog2 x - 53) = u / 2"
    unfolding u_def using power_int_add [of "2::rat" "ilog2 x - 53" 1] by simp
  have f: "fl x = of_int (rne (x / u)) * u"
    using assms by (simp add: fl_def Let_def u_def)
  have "fl x - x = (of_int (rne (x / u)) - x / u) * u"
    using u by (simp add: f field_simps)
  then have "\<bar>fl x - x\<bar> = \<bar>of_int (rne (x / u)) - x / u\<bar> * u"
    using u by (simp add: abs_mult)
  also have "\<dots> \<le> 1 / 2 * u"
    using u rne_error [of "x / u"] by (intro mult_right_mono) simp_all
  finally show ?thesis by (simp add: half)
qed

lemma fl_error_le:
  assumes "0 < x" and "x \<le> power_int 2 k"
  shows "\<bar>fl x - x\<bar> \<le> power_int 2 (k - 53)"
proof -
  have "ilog2 x \<le> k"
  proof (rule ccontr)
    assume "\<not> ilog2 x \<le> k"
    then have "k < ilog2 x" by simp
    then have "power_int (2::rat) k < power_int 2 (ilog2 x)"
      by (rule power_int_strict_increasing) simp
    also have "\<dots> \<le> x" by (rule ilog2_le [OF assms(1)])
    finally show False using assms(2) by simp
  qed
  then have "power_int (2::rat) (ilog2 x - 53) \<le> power_int 2 (k - 53)"
    by (intro power_int_increasing) simp_all
  with fl_error [OF assms(1)] show ?thesis by linarith
qed

lemma product_error:
  assumes c: "0 \<le> c" "c \<le> t" and t: "0 < t"
  shows "\<bar>fmul (fdiv (of_int c) (of_int t)) 100 - 100 * of_int c / of_int t\<bar> \<le> 1 / 2 ^ 45"
proof (cases "c = 0")
  case True
  then show ?thesis by (simp add: fdiv_def fmul_def fl_def)
next
  case False
  define x :: rat where "x = of_int c / of_int t"
  define q where "q = fl x"
  define r where "r = fl (q * 100)"
  have x: "0 < x" "x \<le> 1" using c t False by (simp_all add: x_def)
  have "\<bar>q - x\<bar> \<le> power_int 2 (0 - 53)"
    unfolding q_def using x by (intro fl_error_le) simp_all
  then have eq: "\<bar>q - x\<bar> \<le> 1 / 2 ^ 53" by (simp add: power_int_minus_divide)
  have q0: "0 \<le> q" unfolding q_def using x(1) by (intro fl_nonneg) simp
  have q1: "q \<le> 1"
    using fl_le_int [of x 1] x by (simp add: q_def)
  have er: "\<bar>r - q * 100\<bar> \<le> 1 / 2 ^ 46"
  proof (cases "q = 0")
    case True
    then show ?thesis by (simp add: r_def fl_def)
  next
    case False
    with q0 have "0 < q * 100" by simp
    moreover have "q * 100 \<le> power_int 2 7" using q1 by simp
    ultimately have "\<bar>fl (q * 100) - q * 100\<bar> \<le> power_int 2 (7 - 53)"
      by (rule fl_error_le)
    then show ?thesis by (simp add: r_def power_int_minus_divide)
  qed
  have "r - 100 * x = (r - q * 100) + 100 * (q - x)" by simp
  then have "\<bar>r - 100 * x\<bar> \<le> \<bar>r - q * 100\<bar> + \<bar>100 * (q - x)\<bar>"
    by (simp only: abs_triangle_ineq)
  also have "\<bar>100 * (q - x)\<bar> = 100 * \<bar>q - x\<bar>" by (subst abs_mult) simp
  finally have "\<bar>r - 100 * x\<bar> \<le> \<bar>r - q * 100\<bar> + 100 * \<bar>q - x\<bar>" .
  also have "\<dots> \<le> 1 / 2 ^ 46 + 100 * (1 / 2 ^ 53)"
    using er eq by (intro add_mono mult_left_mono) simp_all
  also have "\<dots> \<le> 1 / 2 ^ 45" by simp
  finally show ?thesis by (simp add: r_def q_def x_def fdiv_def fmul_def)
qed

lemma exact_round: "0 < t \<Longrightarrow> \<lfloor>100 * of_int c / of_int t + (1 / 2 :: rat)\<rfloor> = (200 * c + t) div (2 * t)"
proof -
  assume t: "0 < t"
  have "100 * of_int c / of_int t + (1 / 2 :: rat) = of_int (200 * c + t) / of_int (2 * t)"
    using t by (simp add: field_simps)
  then show ?thesis by (simp only: floor_divide_of_int_eq)
qed

lemma round_off_tie:
  assumes c: "0 \<le> c" "c \<le> t" and t: "0 < t" "t \<le> 120"
    and nt: "(200 * c + t) mod (2 * t) \<noteq> 0"
  shows "Math_round (fmul (fdiv (of_int c) (of_int t)) 100) = (200 * c + t) div (2 * t)"
proof -
  define r where "r = fmul (fdiv (of_int c) (of_int t)) 100"
  define p where "p = (200 * c + t) div (2 * t)"
  define m where "m = (200 * c + t) mod (2 * t)"
  have t2: "0 < 2 * t" using t by simp
  have m0: "0 \<le> m" unfolding m_def using t2 by (rule pos_mod_sign)
  have m1: "m < 2 * t" unfolding m_def using t2 by (rule pos_mod_bound)
  have m2: "m \<noteq> 0" using nt by (simp add: m_def)
  have m: "1 \<le> m" "m \<le> 2 * t - 1" using m0 m1 m2 by linarith+
  have dm: "200 * c + t = 2 * t * p + m" by (simp add: p_def m_def)
  have "100 * of_int c / of_int t + (1 / 2 :: rat) = of_int (200 * c + t) / of_int (2 * t)"
    using t by (simp add: field_simps)
  also have "\<dots> = (of_int (2 * t) * of_int p + of_int m) / of_int (2 * t)"
    by (simp only: dm of_int_add of_int_mult)
  also have "\<dots> = of_int p + of_int m / of_int (2 * t)"
    using t by (simp add: add_divide_distrib)
  finally have x: "100 * of_int c / of_int t + (1 / 2 :: rat) = of_int p + of_int m / of_int (2 * t)" .
  have lo: "(1 / 240 :: rat) \<le> of_int m / of_int (2 * t)"
  proof -
    have "(1::rat) / 240 \<le> 1 / of_int (2 * t)" using t by (simp add: field_simps)
    also have "\<dots> \<le> of_int m / of_int (2 * t)" using m t by (intro divide_right_mono) simp_all
    finally show ?thesis .
  qed
  have hi: "of_int m / of_int (2 * t) \<le> (1 - 1 / 240 :: rat)"
  proof -
    have "of_int m / of_int (2 * t) \<le> (of_int (2 * t - 1) :: rat) / of_int (2 * t)"
      using m t by (intro divide_right_mono) simp_all
    also have "\<dots> = 1 - 1 / of_int (2 * t)" using t by (simp add: field_simps)
    also have "\<dots> \<le> 1 - 1 / 240" using t by (simp add: field_simps)
    finally show ?thesis .
  qed
  define eps :: rat where "eps = 1 / 2 ^ 45"
  have e: "\<bar>r - 100 * of_int c / of_int t\<bar> \<le> eps"
    unfolding r_def eps_def by (rule product_error [OF c t(1)])
  have small: "eps < 1 / 240" by (simp add: eps_def)
  have "of_int p \<le> r + 1 / 2" "r + 1 / 2 < of_int p + 1"
    using e x lo hi small by linarith+
  then have "\<lfloor>r + 1 / 2\<rfloor> = p" by (simp add: floor_unique)
  then show ?thesis by (simp add: Math_round_def r_def p_def)
qed


lemma tie_table:
  "\<forall>j\<in>set [1, 3, 5, 7, 9, 11, 13, 15, 17, 19, 21, 23, 25, 27, 29, 31, 33, 35, 37, 39].
     Math_round (fmul (fl (of_int j / 40)) 100) = (if j = 23 then 57 else (5 * j + 1) div 2)"
  by code_simp

lemma five_dvd_mult:
  fixes a b :: int
  assumes "5 dvd a * b"
  shows "5 dvd a \<or> 5 dvd b"
proof -
  define x where "x = a mod 5"
  define y where "y = b mod 5"
  have "x * y mod 5 = 0"
    using assms by (simp add: x_def y_def mod_mult_eq dvd_eq_mod_eq_0)
  moreover have "x = 0 \<or> x = 1 \<or> x = 2 \<or> x = 3 \<or> x = 4" unfolding x_def by presburger
  moreover have "y = 0 \<or> y = 1 \<or> y = 2 \<or> y = 3 \<or> y = 4" unfolding y_def by presburger
  ultimately have "x = 0 \<or> y = 0" by auto
  then show ?thesis by (simp add: x_def y_def dvd_eq_mod_eq_0)
qed

lemma tie_fraction:
  fixes c t :: int
  assumes c: "0 \<le> c" "c \<le> t" and t: "0 < t" "t \<le> 120"
    and tie: "(200 * c + t) mod (2 * t) = 0"
  obtains j where "odd j" "1 \<le> j" "j \<le> 39" "40 * c = j * t" "(200 * c + t) div (2 * t) = (5 * j + 1) div 2"
proof -
  define p where "p = (200 * c + t) div (2 * t)"
  have "2 * t dvd 200 * c + t" using tie by (simp only: mod_eq_0_iff_dvd)
  then have "2 * t * p = 200 * c + t" unfolding p_def by (rule dvd_mult_div_cancel)
  then have eq: "200 * c = t * (2 * p - 1)" by (simp add: algebra_simps)
  have odd: "odd (2 * p - 1)" by simp
  have "8 dvd t * (2 * p - 1)"
  proof -
    have "8 dvd 200 * c" by simp
    then show ?thesis by (simp only: eq)
  qed
  moreover have "coprime (8::int) (2 * p - 1)"
  proof -
    have "coprime ((2::int) ^ 3) (2 * p - 1)" using odd by (simp only: coprime_power_left_iff coprime_left_2_iff_odd) simp
    then show ?thesis by simp
  qed
  ultimately have t8: "8 dvd t" by (simp add: coprime_dvd_mult_left_iff)
  have five: "5 dvd (2 * p - 1)"
  proof (rule ccontr)
    assume n: "\<not> 5 dvd (2 * p - 1)"
    have "5 dvd 200 * c" by simp
    then have "5 dvd t * (2 * p - 1)" by (simp only: eq)
    with n have "5 dvd t" using five_dvd_mult by blast
    then obtain t' where t': "t = 5 * t'" by (auto elim: dvdE)
    have "40 * c = t' * (2 * p - 1)" using eq t' by simp
    moreover have "5 dvd 40 * c" by simp
    ultimately have "5 dvd t' * (2 * p - 1)" by (simp only:)
    with n have "5 dvd t'" using five_dvd_mult by blast
    then have "25 dvd t" using t' by presburger
    with t8 t show False by presburger
  qed
  then obtain j where j: "2 * p - 1 = 5 * j" by (auto elim: dvdE)
  have oj: "odd j" using odd by (simp add: j)
  have cj: "40 * c = j * t"
  proof -
    have "5 * (40 * c) = 5 * (j * t)" using eq by (simp add: j)
    then show ?thesis by simp
  qed
  have "0 \<le> j * t" using c cj by simp
  then have j0: "0 \<le> j" using t by (simp add: zero_le_mult_iff)
  have "j * t \<le> 40 * t" using c cj by simp
  then have j40: "j \<le> 40" using t by simp
  have pj: "p = (5 * j + 1) div 2" using j by presburger
  show ?thesis
  proof (rule that [of j])
    show "odd j" by (rule oj)
    show "1 \<le> j" using oj j0 by presburger
    show "j \<le> 39" using oj j40 by presburger
    show "40 * c = j * t" by (rule cj)
    show "(200 * c + t) div (2 * t) = (5 * j + 1) div 2" using pj by (simp add: p_def)
  qed
qed

lemma round_on_tie:
  fixes c t :: int
  assumes c: "0 \<le> c" "c \<le> t" and t: "0 < t" "t \<le> 120"
    and tie: "(200 * c + t) mod (2 * t) = 0"
  shows "Math_round (fmul (fdiv (of_int c) (of_int t)) 100)
     = (if 40 * c = 23 * t then 57 else (200 * c + t) div (2 * t))"
proof -
  from tie_fraction [OF c t tie] obtain j where
    j: "odd j" "1 \<le> j" "j \<le> 39" "40 * c = j * t"
       "(200 * c + t) div (2 * t) = (5 * j + 1) div 2" by blast
  have "j \<in> set [1, 3, 5, 7, 9, 11, 13, 15, 17, 19, 21, 23, 25, 27, 29, 31, 33, 35, 37, 39]"
    using j(1-3) by simp presburger
  with tie_table have v: "Math_round (fmul (fl (of_int j / 40)) 100)
      = (if j = 23 then 57 else (5 * j + 1) div 2)" by blast
  have "(of_int (c * 40) :: rat) = of_int (j * t)" using j(4) by (simp add: mult.commute)
  then have "(of_int c :: rat) * 40 = of_int j * of_int t" by simp
  then have "(of_int c :: rat) / of_int t = of_int j / 40" using t by (simp add: frac_eq_eq)
  then have f: "fdiv (of_int c) (of_int t) = fl (of_int j / 40)" by (simp only: fdiv_def)
  have "(40 * c = 23 * t) = (j = 23)" using j(4) t by auto
  then show ?thesis using v by (simp add: f j(5))
qed

lemma percentage_value:
  fixes c t :: int
  assumes c: "0 \<le> c" "c \<le> t" and t: "0 < t" "t \<le> 120"
  shows "Math_round (fmul (fdiv (of_int c) (of_int t)) 100)
     = (if 40 * c = 23 * t then 57 else (200 * c + t) div (2 * t))"
proof (cases "(200 * c + t) mod (2 * t) = 0")
  case True
  then show ?thesis by (rule round_on_tie [OF c t])
next
  case False
  have "40 * c \<noteq> 23 * t"
  proof
    assume "40 * c = 23 * t"
    then have "200 * c + t = 58 * (2 * t)" by simp
    moreover have "58 * (2 * t) mod (2 * t) = 0" by (rule mod_mult_self2_is_0)
    ultimately have "(200 * c + t) mod (2 * t) = 0" by (simp only:)
    with False show False by simp
  qed
  then show ?thesis using round_off_tie [OF c t False] by simp
qed


section \<open>What the two loops count\<close>

lemma countRow_card:
  "countRow cs h w k cnt = cnt + int (card {j. w \<le> j \<and> j < k \<and> isChecked cs h j})"
proof (induction cs h w k cnt rule: countRow.induct)
  case (1 cs h w k cnt)
  show ?case
  proof (cases "w < k")
    case False
    then have e: "{j. w \<le> j \<and> j < k \<and> isChecked cs h j} = {}" by auto
    show ?thesis unfolding e using False by (subst countRow.simps) simp
  next
    case True
    let ?A = "{j. w + 1 \<le> j \<and> j < k \<and> isChecked cs h j}"
    have fin: "finite ?A" by (rule finite_subset [of _ "{w + 1..<k}"]) auto
    have notin: "w \<notin> ?A" by simp
    show ?thesis
    proof (cases "isChecked cs h w")
      case c: True
      have "{j. w \<le> j \<and> j < k \<and> isChecked cs h j} = insert w ?A"
        using True c by (auto simp: order_le_less)
      then have e: "card {j. w \<le> j \<and> j < k \<and> isChecked cs h j} = Suc (card ?A)"
        using fin notin by simp
      show ?thesis unfolding e
        using True c "1.IH" [OF True] by (subst countRow.simps) simp
    next
      case c: False
      have e: "{j. w \<le> j \<and> j < k \<and> isChecked cs h j} = ?A"
        using True c by (auto simp: order_le_less)
      show ?thesis unfolding e
        using True c "1.IH" [OF True] by (subst countRow.simps) simp
    qed
  qed
qed

lemma countGrid_card:
  "countGrid cs h n k cnt =
     cnt + int (card {c \<in> {h..<n} \<times> {0..<k}. isChecked cs (fst c) (snd c)})"
proof (induction cs h n k cnt rule: countGrid.induct)
  case (1 cs h n k cnt)
  let ?P = "\<lambda>c. isChecked cs (fst c) (snd c)"
  show ?case
  proof (cases "h < n")
    case False
    then have e: "{c \<in> {h..<n} \<times> {0..<k}. ?P c} = {}" by auto
    show ?thesis unfolding e using False by (subst countGrid.simps) simp
  next
    case True
    let ?R = "{j. 0 \<le> j \<and> j < k \<and> isChecked cs h j}"
    let ?B = "{c \<in> {h + 1..<n} \<times> {0..<k}. ?P c}"
    have split: "{c \<in> {h..<n} \<times> {0..<k}. ?P c} = Pair h ` ?R \<union> ?B"
      using True by (auto simp: order_le_less)
    have finR: "finite ?R" by (rule finite_subset [of _ "{0..<k}"]) auto
    have finB: "finite ?B" by simp
    have disj: "Pair h ` ?R \<inter> ?B = {}" by auto
    have "card (Pair h ` ?R \<union> ?B) = card (Pair h ` ?R) + card ?B"
      using finR finB disj by (simp add: card_Un_disjoint)
    also have "card (Pair h ` ?R) = card ?R"
      by (rule card_image) (simp add: inj_on_def)
    finally have e: "card {c \<in> {h..<n} \<times> {0..<k}. ?P c} = card ?R + card ?B"
      using split by simp
    show ?thesis unfolding e
      using True "1.IH" [OF True] by (subst countGrid.simps) (simp add: countRow_card)
  qed
qed

lemma completed_card:
  "completed (deriveStats cs n k) = int (card (checkedCells cs n k))"
  by (simp add: deriveStats_def Let_def countGrid_card checkedCells_def grid_def)

lemma card_grid: "0 \<le> n \<Longrightarrow> 0 \<le> k \<Longrightarrow> int (card (grid n k)) = n * k"
  by (simp add: grid_def)

lemma checkedCells_le: "0 \<le> n \<Longrightarrow> 0 \<le> k \<Longrightarrow> int (card (checkedCells cs n k)) \<le> n * k"
proof -
  assume a: "0 \<le> n" "0 \<le> k"
  have "card (checkedCells cs n k) \<le> card (grid n k)"
    by (rule card_mono) (auto simp: checkedCells_def grid_def)
  then show ?thesis using card_grid [OF a] by linarith
qed


section \<open>Reading and writing cells\<close>

lemma isChecked_lookup:
  "isChecked cs h t =
     (case cs h of None \<Rightarrow> False | Some r \<Rightarrow> (case r t of None \<Rightarrow> False | Some b \<Rightarrow> b))"
  by (simp add: isChecked_def optIndex_def orFalse_def split: option.splits)

lemma isChecked_setCell:
  "isChecked (setCell cs h t v) h' t' = (if h' = h \<and> t' = t then v else isChecked cs h' t')"
  by (simp add: isChecked_def optIndex_def orFalse_def setCell_def split: option.splits)

lemma setCell_twice: "setCell (setCell cs h t v) h t v = setCell cs h t v"
  by (simp add: setCell_def)

lemma checkedState_handleHabitsChange [simp]:
  "checkedState (handleHabitsChange n s) = checkedState s"
  by (simp add: handleHabitsChange_def Let_def)

lemma checkedState_handleWeeksChange [simp]:
  "checkedState (handleWeeksChange n s) = checkedState s"
  by (simp add: handleWeeksChange_def)

lemma checkedState_handleCheckChange [simp]:
  "checkedState (handleCheckChange h t v s) = setCell (checkedState s) h t v"
  by (simp add: handleCheckChange_def)

lemma stats_sum: "completed (deriveStats cs n k) + remaining (deriveStats cs n k) = n * k"
  by (simp add: deriveStats_def Let_def)


section \<open>Habit names\<close>

lemma generatedNames_upt:
  "generatedNames len k = map (\<lambda>j. ''Habit '' @ string_of_nat j) [len + 1..<len + 1 + k]"
  by (induction k) (simp_all add: generatedNames_def add.commute add.left_commute)

lemma habitNames_handleHabitsChange:
  "habitNames (handleHabitsChange n s) =
     (if int (length (habitNames s)) < clamp 1 10 n
      then habitNames s @ map (\<lambda>j. ''Habit '' @ string_of_nat j)
             [length (habitNames s) + 1..<nat (clamp 1 10 n) + 1]
      else habitNames s)"
proof (cases "int (length (habitNames s)) < clamp 1 10 n")
  case True
  then have "length (habitNames s) + 1 + nat (clamp 1 10 n - int (length (habitNames s)))
     = nat (clamp 1 10 n) + 1" by simp
  with True show ?thesis
    by (simp add: handleHabitsChange_def Let_def generatedNames_upt)
next
  case False
  then show ?thesis by (simp add: handleHabitsChange_def Let_def)
qed

lemma habitNames_prefix:
  "take (length (habitNames s)) (habitNames (handleHabitsChange n s)) = habitNames s"
  by (simp add: habitNames_handleHabitsChange)

lemma length_habitNames_mono:
  "length (habitNames s) \<le> length (habitNames (handleHabitsChange n s))"
  by (simp add: habitNames_handleHabitsChange)

lemma habitNames_prefix2:
  "take (length (habitNames s)) (habitNames (handleHabitsChange m (handleHabitsChange n s)))
     = habitNames s"
proof -
  let ?s1 = "handleHabitsChange n s"
  have "take (length (habitNames s)) (habitNames (handleHabitsChange m ?s1))
      = take (length (habitNames s)) (take (length (habitNames ?s1)) (habitNames (handleHabitsChange m ?s1)))"
    using length_habitNames_mono [of s n] by (simp add: min_def)
  also have "\<dots> = take (length (habitNames s)) (habitNames ?s1)"
    by (simp only: habitNames_prefix)
  also have "\<dots> = habitNames s" by (rule habitNames_prefix)
  finally show ?thesis .
qed


section \<open>Invariants of the counts\<close>

lemma habits_handleCheckChange [simp]: "habits (handleCheckChange h t v s) = habits s"
  by (simp add: handleCheckChange_def)

lemma weeks_handleCheckChange [simp]: "weeks (handleCheckChange h t v s) = weeks s"
  by (simp add: handleCheckChange_def)

lemma habits_handleWeeksChange [simp]: "habits (handleWeeksChange n s) = habits s"
  by (simp add: handleWeeksChange_def)

lemma weeks_handleHabitsChange [simp]: "weeks (handleHabitsChange n s) = weeks s"
  by (simp add: handleHabitsChange_def Let_def)

lemma habits_handleHabitsChange: "habits (handleHabitsChange n s) = clamp 1 10 n"
  by (simp add: handleHabitsChange_def Let_def)

lemma weeks_handleWeeksChange: "weeks (handleWeeksChange n s) = clamp 1 12 n"
  by (simp add: handleWeeksChange_def)

lemma clamp_range: "lo \<le> hi \<Longrightarrow> lo \<le> clamp lo hi v \<and> clamp lo hi v \<le> hi"
  by (simp add: clamp_def)

lemma step_invariant:
  assumes "1 \<le> habits s \<and> habits s \<le> 10 \<and> 1 \<le> weeks s \<and> weeks s \<le> 12"
  shows "1 \<le> habits (step s a) \<and> habits (step s a) \<le> 10
       \<and> 1 \<le> weeks (step s a) \<and> weeks (step s a) \<le> 12"
  using assms clamp_range [of 1 10] clamp_range [of 1 12]
  by (cases a) (simp_all add: habits_handleHabitsChange weeks_handleWeeksChange)

lemma foldl_step_invariant:
  "1 \<le> habits s \<and> habits s \<le> 10 \<and> 1 \<le> weeks s \<and> weeks s \<le> 12 \<Longrightarrow>
   1 \<le> habits (foldl step s acts) \<and> habits (foldl step s acts) \<le> 10
   \<and> 1 \<le> weeks (foldl step s acts) \<and> weeks (foldl step s acts) \<le> 12"
proof (induction acts arbitrary: s)
  case Nil
  then show ?case by simp
next
  case (Cons a acts)
  from Cons.prems have "1 \<le> habits (step s a) \<and> habits (step s a) \<le> 10
       \<and> 1 \<le> weeks (step s a) \<and> weeks (step s a) \<le> 12" by (rule step_invariant)
  then show ?case using Cons.IH [of "step s a"] by simp
qed

lemma run_weeks_invariant:
  "1 \<le> habits (run_weeks acts) \<and> habits (run_weeks acts) \<le> 10
   \<and> 1 \<le> weeks (run_weeks acts) \<and> weeks (run_weeks acts) \<le> 12"
  unfolding run_weeks_def by (rule foldl_step_invariant) (simp add: init_weeks_def)

lemma day_step_invariant:
  assumes "1 \<le> habits s \<and> habits s \<le> 10"
  shows "1 \<le> habits (day_step s a) \<and> habits (day_step s a) \<le> 10"
  using assms clamp_range [of 1 10]
  by (cases a) (simp_all add: habits_handleHabitsChange)

lemma foldl_day_step_invariant:
  "1 \<le> habits s \<and> habits s \<le> 10 \<Longrightarrow>
   1 \<le> habits (foldl day_step s acts) \<and> habits (foldl day_step s acts) \<le> 10"
proof (induction acts arbitrary: s)
  case Nil
  then show ?case by simp
next
  case (Cons a acts)
  from Cons.prems have "1 \<le> habits (day_step s a) \<and> habits (day_step s a) \<le> 10"
    by (rule day_step_invariant)
  then show ?case using Cons.IH [of "day_step s a"] by simp
qed

lemma run_days_invariant:
  "1 \<le> habits (run_days acts) \<and> habits (run_days acts) \<le> 10"
  unfolding run_days_def by (rule foldl_day_step_invariant) (simp add: init_days_def)


section \<open>The statistics in terms of the checked cells\<close>

lemma countGrid_checkedCells: "countGrid cs 0 n k 0 = int (card (checkedCells cs n k))"
  using completed_card [of cs n k] by (simp add: deriveStats_def Let_def)

lemma deriveStats_card:
  "deriveStats cs n k =
     \<lparr>completed = int (card (checkedCells cs n k)),
      remaining = n * k - int (card (checkedCells cs n k)),
      percentage = (if 0 < n * k
                    then Math_round (fmul (fdiv (of_int (int (card (checkedCells cs n k))))
                                                (of_int (n * k))) 100)
                    else 0)\<rparr>"
  by (simp add: deriveStats_def Let_def countGrid_checkedCells)

lemma foldl_day_toggles:
  "habits (foldl day_step s (map (\<lambda>(h, d). DayToggle h d True) cells)) = habits s
   \<and> (\<forall>h d. isChecked (checkedState (foldl day_step s (map (\<lambda>(h, d). DayToggle h d True) cells))) h d
         = ((h, d) \<in> set cells \<or> isChecked (checkedState s) h d))"
proof (induction cells arbitrary: s)
  case Nil
  show ?case by simp
next
  case (Cons c cells)
  obtain h0 d0 where c: "c = (h0, d0)" by (cases c)
  show ?case
    using Cons.IH [of "handleCheckChange h0 d0 True s"]
    by (auto simp: c isChecked_setCell)
qed

lemma seven_of_twentyone: "Math_round (fmul (fdiv 7 21) 100) = 33"
  by code_simp

lemma deriveStats_bounds:
  assumes n: "0 \<le> n" and k: "0 \<le> k"
  shows "0 \<le> completed (deriveStats cs n k)"
    and "completed (deriveStats cs n k) \<le> n * k"
    and "0 \<le> remaining (deriveStats cs n k)"
    and "0 \<le> percentage (deriveStats cs n k)"
    and "percentage (deriveStats cs n k) \<le> 100"
proof -
  let ?c = "countGrid cs 0 n k 0"
  have c: "?c = int (card (checkedCells cs n k))"
    using completed_card [of cs n k] by (simp add: deriveStats_def Let_def)
  have c0: "0 \<le> ?c" by (simp add: c)
  have c1: "?c \<le> n * k" unfolding c by (rule checkedCells_le [OF n k])
  show "0 \<le> completed (deriveStats cs n k)" using c0 by (simp add: deriveStats_def Let_def)
  show "completed (deriveStats cs n k) \<le> n * k" using c1 by (simp add: deriveStats_def Let_def)
  show "0 \<le> remaining (deriveStats cs n k)" using c1 by (simp add: deriveStats_def Let_def)
  show "0 \<le> percentage (deriveStats cs n k)"
    using percentage_bounds(1) [OF c0 c1] by (simp add: deriveStats_def Let_def)
  show "percentage (deriveStats cs n k) \<le> 100"
    using percentage_bounds(2) [OF c0 c1] by (simp add: deriveStats_def Let_def)
qed

lemma deriveStats_cong:
  "checkedCells cs n k = checkedCells cs' n k \<Longrightarrow> deriveStats cs n k = deriveStats cs' n k"
proof -
  assume e: "checkedCells cs n k = checkedCells cs' n k"
  have "countGrid cs 0 n k 0 = countGrid cs' 0 n k 0"
    using completed_card [of cs n k] completed_card [of cs' n k] e
    by (simp add: deriveStats_def Let_def)
  then show ?thesis by (simp add: deriveStats_def Let_def)
qed

lemma checkedCells_setCell_outside:
  "(h, t) \<notin> grid n k \<Longrightarrow> checkedCells (setCell cs h t v) n k = checkedCells cs n k"
  by (auto simp: checkedCells_def isChecked_setCell)

lemma deriveStats_setCell_outside:
  "(h, t) \<notin> grid n k \<Longrightarrow> deriveStats (setCell cs h t v) n k = deriveStats cs n k"
  by (rule deriveStats_cong) (rule checkedCells_setCell_outside)


section \<open>The percentage in the states the operations reach\<close>

lemma deriveStats_percentage:
  assumes n: "0 \<le> n" and k: "0 \<le> k" and pos: "0 < n * k" and le: "n * k \<le> 120"
  shows "percentage (deriveStats cs n k) =
     (if 40 * completed (deriveStats cs n k) = 23 * (n * k) then 57
      else \<lfloor>of_int (completed (deriveStats cs n k)) / of_int (n * k) * 100 + (1 / 2 :: rat)\<rfloor>)"
proof -
  define c where "c = countGrid cs 0 n k 0"
  have cc: "completed (deriveStats cs n k) = c" by (simp add: deriveStats_def Let_def c_def)
  have c0: "0 \<le> c" using deriveStats_bounds(1) [OF n k, of cs] by (simp add: cc)
  have c1: "c \<le> n * k" using deriveStats_bounds(2) [OF n k, of cs] by (simp add: cc)
  have p: "percentage (deriveStats cs n k)
      = Math_round (fmul (fdiv (of_int c) (of_int (n * k))) 100)"
    using pos by (simp add: deriveStats_def Let_def c_def)
  have e: "\<lfloor>of_int c / of_int (n * k) * 100 + (1 / 2 :: rat)\<rfloor> = (200 * c + n * k) div (2 * (n * k))"
    using exact_round [OF pos, of c] by (simp add: mult.commute)
  show ?thesis
    unfolding cc p e by (rule percentage_value [OF c0 c1 pos le])
qed

lemma run_weeks_total:
  "0 < habits (run_weeks acts) * weeks (run_weeks acts)
   \<and> habits (run_weeks acts) * weeks (run_weeks acts) \<le> 120"
proof -
  have i: "1 \<le> habits (run_weeks acts)" "habits (run_weeks acts) \<le> 10"
      "1 \<le> weeks (run_weeks acts)" "weeks (run_weeks acts) \<le> 12"
    using run_weeks_invariant [of acts] by simp_all
  have "habits (run_weeks acts) * weeks (run_weeks acts) \<le> 10 * 12"
    using i by (intro mult_mono) simp_all
  moreover have "0 < habits (run_weeks acts) * weeks (run_weeks acts)"
    using i by (intro mult_pos_pos) simp_all
  ultimately show ?thesis by simp
qed

lemma percentage_weeks:
  "percentage (stats_weeks (run_weeks acts)) =
     (if 40 * completed (stats_weeks (run_weeks acts))
           = 23 * (habits (run_weeks acts) * weeks (run_weeks acts)) then 57
      else \<lfloor>of_int (completed (stats_weeks (run_weeks acts)))
              / of_int (habits (run_weeks acts) * weeks (run_weeks acts)) * 100 + (1 / 2 :: rat)\<rfloor>)"
proof -
  have i: "0 \<le> habits (run_weeks acts)" "0 \<le> weeks (run_weeks acts)"
    using run_weeks_invariant [of acts] by simp_all
  have t: "0 < habits (run_weeks acts) * weeks (run_weeks acts)"
      "habits (run_weeks acts) * weeks (run_weeks acts) \<le> 120"
    using run_weeks_total [of acts] by simp_all
  show ?thesis unfolding stats_weeks_def by (rule deriveStats_percentage [OF i t])
qed

lemma percentage_days:
  "percentage (stats_days (run_days dacts)) =
     \<lfloor>of_int (completed (stats_days (run_days dacts)))
        / of_int (habits (run_days dacts) * 7) * 100 + (1 / 2 :: rat)\<rfloor>"
proof -
  define n where "n = habits (run_days dacts)"
  define c where "c = completed (deriveStats (checkedState (run_days dacts)) n 7)"
  have i: "1 \<le> n" "n \<le> 10" using run_days_invariant [of dacts] by (simp_all add: n_def)
  have n0: "0 \<le> n" and k0: "(0::int) \<le> 7" and pos: "0 < n * 7" and le: "n * 7 \<le> 120"
    using i by simp_all
  have "40 * c \<noteq> 23 * (n * 7)"
  proof
    assume "40 * c = 23 * (n * 7)"
    then have "n = 40 * (c - 4 * n)" by simp
    then have "40 dvd n" by (rule dvdI)
    then have "40 \<le> n" using i by (intro zdvd_imp_le) simp_all
    with i show False by simp
  qed
  then show ?thesis
    unfolding stats_days_def
    using deriveStats_percentage [OF n0 k0 pos le, of "checkedState (run_days dacts)"]
    by (simp add: n_def c_def)
qed


section \<open>Properties of the tracker\<close>

text \<open>
  C1. After any sequence of toggles, habit-count changes and week-count changes, the
  completed and the remaining cells add up to the size of the grid: habits times weeks
  in the weeks variant, habits times 7 in the days variant.
\<close>

theorem completed_plus_remaining:
  "completed (stats_weeks (run_weeks acts)) + remaining (stats_weeks (run_weeks acts))
     = habits (run_weeks acts) * weeks (run_weeks acts)
   \<and> completed (stats_days (run_days dacts)) + remaining (stats_days (run_days dacts))
     = habits (run_days dacts) * 7"
  by (simp add: stats_weeks_def stats_days_def stats_sum)

text \<open>
  C2. The claim is that the percentage is the nearest integer to
  \<open>completed / total * 100\<close>. The code computes the quotient and the product in binary64.
  With 4 habits, 10 weeks and 23 cells checked the exact value is 57.5, which rounds to
  58. In binary64 \<open>23 / 40\<close> is \<open>2589569785738035 / 2^52\<close>, just below 0.575, its
  product with 100 rounds to \<open>8092405580431359 / 2^47 = 57.49999999999999...\<close>, and
  \<open>Math.round\<close> of that is 57. This is the only ratio at which a reachable state
  differs from the claim: in the weeks variant the percentage is the exactly rounded
  one unless \<open>completed / total = 23 / 40\<close>, and in the days variant it always is.
  Completed is the number of cells of the grid that read as checked, and the percentage
  of an empty grid is 0.
\<close>

theorem percentage_tie_rounds_down:
  "(let s = run_weeks (SetHabitCount 4 # SetWeekCount 10 #
              map (\<lambda>(h, w). Toggle h w True)
                (List.product [0, 1] [0..9] @ [(2, 0), (2, 1), (2, 2)]))
    in habits s = 4 \<and> weeks s = 10
       \<and> stats_weeks s = \<lparr>completed = 23, remaining = 17, percentage = 57\<rparr>)
   \<and> fdiv 23 40 = 2589569785738035 / 2 ^ 52
   \<and> fmul (fdiv 23 40) 100 = 8092405580431359 / 2 ^ 47
   \<and> \<lfloor>(23::rat) / 40 * 100 + 1 / 2\<rfloor> = 58
   \<and> percentage (stats_weeks (run_weeks acts)) =
       (if 40 * completed (stats_weeks (run_weeks acts))
             = 23 * (habits (run_weeks acts) * weeks (run_weeks acts)) then 57
        else \<lfloor>of_int (completed (stats_weeks (run_weeks acts)))
                / of_int (habits (run_weeks acts) * weeks (run_weeks acts)) * 100
                + (1 / 2 :: rat)\<rfloor>)
   \<and> percentage (stats_days (run_days dacts)) =
       \<lfloor>of_int (completed (stats_days (run_days dacts)))
          / of_int (habits (run_days dacts) * 7) * 100 + (1 / 2 :: rat)\<rfloor>
   \<and> completed (deriveStats cs n k) = int (card (checkedCells cs n k))
   \<and> percentage (deriveStats cs n 0) = 0
   \<and> percentage (deriveStats cs 0 k) = 0"
proof -
  have z1: "percentage (deriveStats cs n 0) = 0" by (simp add: deriveStats_def Let_def)
  have z2: "percentage (deriveStats cs 0 k) = 0" by (simp add: deriveStats_def Let_def)
  have a1: "(let s = run_weeks (SetHabitCount 4 # SetWeekCount 10 #
              map (\<lambda>(h, w). Toggle h w True)
                (List.product [0, 1] [0..9] @ [(2, 0), (2, 1), (2, 2)]))
    in habits s = 4 \<and> weeks s = 10
       \<and> stats_weeks s = \<lparr>completed = 23, remaining = 17, percentage = 57\<rparr>)"
    by code_simp
  have a2: "fdiv 23 40 = 2589569785738035 / 2 ^ 52" by code_simp
  have a3: "fmul (fdiv 23 40) 100 = 8092405580431359 / 2 ^ 47" by code_simp
  have a4: "\<lfloor>(23::rat) / 40 * 100 + 1 / 2\<rfloor> = 58" by code_simp
  show ?thesis
    by (intro conjI) (rule a1 a2 a3 a4 z1 z2 percentage_weeks percentage_days completed_card)+
qed

text \<open>
  C3. Setting the habit count to any integer \<open>n\<close> leaves the habit count at \<open>n\<close> clamped
  to 1..10 (so 15 gives 10 and 0 gives 1); setting the week count leaves the week count
  at \<open>n\<close> clamped to 1..12.
\<close>

theorem counts_are_clamped:
  "habits (handleHabitsChange n s) = (if n < 1 then 1 else if 10 < n then 10 else n)
   \<and> weeks (handleWeeksChange n w) = (if n < 1 then 1 else if 12 < n then 12 else n)
   \<and> habits (handleHabitsChange 15 s) = 10
   \<and> habits (handleHabitsChange 0 s) = 1"
  by (simp add: handleHabitsChange_def handleWeeksChange_def clamp_def Let_def)

text \<open>
  C4. Setting the habit count never changes or removes a name: when the clamped count
  exceeds the length of the name list, the names "Habit k" are appended for exactly the
  new positions \<open>k\<close> (counted from 1), otherwise the list is left as it is. The old list
  is a prefix of the new one, also after two changes in a row; from the initial state,
  raising the count to 6 and lowering it to 3 keeps "Exercise", "Read" and "Meditate" in
  the first three places.
\<close>

theorem habit_names_kept:
  "habitNames (handleHabitsChange n s) =
     (if int (length (habitNames s)) < clamp 1 10 n
      then habitNames s @ map (\<lambda>j. ''Habit '' @ string_of_nat j)
             [length (habitNames s) + 1..<nat (clamp 1 10 n) + 1]
      else habitNames s)
  \<and> take (length (habitNames s)) (habitNames (handleHabitsChange n s)) = habitNames s
  \<and> take (length (habitNames s)) (habitNames (handleHabitsChange m (handleHabitsChange n s)))
     = habitNames s
  \<and> habits (handleHabitsChange 3 (handleHabitsChange 6 init_weeks)) = 3
  \<and> habitNames (handleHabitsChange 3 (handleHabitsChange 6 init_weeks))
     = [''Exercise'', ''Read'', ''Meditate'', ''Habit 4'', ''Habit 5'', ''Habit 6'']"
proof -
  have a: "habits (handleHabitsChange 3 (handleHabitsChange 6 init_weeks)) = 3" by code_simp
  have b: "habitNames (handleHabitsChange 3 (handleHabitsChange 6 init_weeks))
     = [''Exercise'', ''Read'', ''Meditate'', ''Habit 4'', ''Habit 5'', ''Habit 6'']" by code_simp
  from habitNames_handleHabitsChange [of n s] habitNames_prefix [of s n] habitNames_prefix2 [of s m n] a b
  show ?thesis by (simp only: simp_thms)
qed

text \<open>
  C5. Reading a cell is defined for every completion mapping and every pair of integer
  indices, whatever the current bounds: it gives the stored boolean, and \<open>False\<close> when
  the row or the cell is missing. Nothing is stored at the start, and after a toggle the
  toggled cell reads as the value written and every other cell as before.
\<close>

theorem isChecked_total:
  "isChecked cs h t =
     (case cs h of None \<Rightarrow> False | Some r \<Rightarrow> (case r t of None \<Rightarrow> False | Some b \<Rightarrow> b))
   \<and> isChecked Map.empty h t = False
   \<and> isChecked (checkedState (handleCheckChange h t v s)) h' t'
       = (if h' = h \<and> t' = t then v else isChecked (checkedState s) h' t')"
  by (simp add: isChecked_setCell) (simp add: isChecked_lookup)

text \<open>
  C6. Toggling a cell to a value twice gives the same state as toggling it once.
\<close>

theorem toggle_idempotent:
  "handleCheckChange h t v (handleCheckChange h t v s) = handleCheckChange h t v s"
  by (simp add: handleCheckChange_def setCell_twice)

text \<open>
  C7. Changing the habit count or the week count leaves the completion mapping as it
  is. So a cell toggled before the count is lowered and raised again still reads as the
  value it was given.
\<close>

theorem count_changes_keep_cells:
  "checkedState (handleHabitsChange n s) = checkedState s
   \<and> checkedState (handleWeeksChange n w) = checkedState w
   \<and> isChecked (checkedState (handleHabitsChange n2 (handleHabitsChange n1
         (handleCheckChange h t v s)))) h t = v
   \<and> isChecked (checkedState (handleWeeksChange n2 (handleWeeksChange n1
         (handleCheckChange h t v w)))) h t = v"
  by (simp add: isChecked_setCell)

text \<open>
  C8. The weeks variant starts with 3 habits, 4 weeks and nothing checked: 0 completed,
  12 remaining, 0 percent. After cells (0,0) and (1,2) are toggled to true: 2 completed,
  10 remaining, 17 percent.
\<close>

theorem weeks_scenario:
  "habits init_weeks = 3 \<and> weeks init_weeks = 4 \<and> checkedState init_weeks = Map.empty
   \<and> stats_weeks init_weeks = \<lparr>completed = 0, remaining = 12, percentage = 0\<rparr>
   \<and> stats_weeks (run_weeks [Toggle 0 0 True, Toggle 1 2 True])
       = \<lparr>completed = 2, remaining = 10, percentage = 17\<rparr>"
proof -
  have start: "habits init_weeks = 3 \<and> weeks init_weeks = 4
      \<and> checkedState init_weeks = Map.empty"
    by (simp add: init_weeks_def)
  have before: "stats_weeks init_weeks = \<lparr>completed = 0, remaining = 12, percentage = 0\<rparr>"
    by code_simp
  have after: "stats_weeks (run_weeks [Toggle 0 0 True, Toggle 1 2 True])
      = \<lparr>completed = 2, remaining = 10, percentage = 17\<rparr>"
    by code_simp
  from start before after show ?thesis by (simp only: simp_thms)
qed

text \<open>
  C9. In the days variant there are 7 time slots, so with the initial 3 habits the grid
  has 21 cells. Toggling any 7 distinct cells of that grid to true, from the initial
  state, gives 7 completed, 14 remaining and 33 percent.
\<close>

theorem days_scenario:
  assumes "distinct cells" and "length cells = 7" and "set cells \<subseteq> grid 3 7"
  shows "habits (run_days (map (\<lambda>(h, d). DayToggle h d True) cells)) * 7 = 21
    \<and> stats_days (run_days (map (\<lambda>(h, d). DayToggle h d True) cells))
        = \<lparr>completed = 7, remaining = 14, percentage = 33\<rparr>"
proof -
  let ?s = "run_days (map (\<lambda>(h, d). DayToggle h d True) cells)"
  have h: "habits ?s = 3"
    using foldl_day_toggles [of init_days cells] by (simp add: run_days_def init_days_def)
  have "\<And>h d. isChecked (checkedState ?s) h d = ((h, d) \<in> set cells)"
    using foldl_day_toggles [of init_days cells]
    by (simp add: run_days_def) (simp add: init_days_def isChecked_lookup)
  then have "checkedCells (checkedState ?s) 3 7 = set cells"
    using assms(3) by (auto simp: checkedCells_def)
  then have "card (checkedCells (checkedState ?s) 3 7) = 7"
    using assms(1,2) by (simp add: distinct_card)
  then have "stats_days ?s = \<lparr>completed = 7, remaining = 14, percentage = 33\<rparr>"
    by (simp add: stats_days_def h deriveStats_card seven_of_twentyone)
  with h show ?thesis by simp
qed

theorem days_scenario_witness:
  "distinct [(0, 0), (0, 1), (0, 6), (1, 2), (1, 3), (2, 4), (2::int, 5::int)]
   \<and> length [(0, 0), (0, 1), (0, 6), (1, 2), (1, 3), (2, 4), (2::int, 5::int)] = 7
   \<and> set [(0, 0), (0, 1), (0, 6), (1, 2), (1, 3), (2, 4), (2, 5)] \<subseteq> grid 3 7
   \<and> stats_days (run_days [DayToggle 0 0 True, DayToggle 0 1 True, DayToggle 0 6 True,
         DayToggle 1 2 True, DayToggle 1 3 True, DayToggle 2 4 True, DayToggle 2 5 True])
        = \<lparr>completed = 7, remaining = 14, percentage = 33\<rparr>"
proof -
  let ?cells = "[(0, 0), (0, 1), (0, 6), (1, 2), (1, 3), (2, 4), (2::int, 5::int)]"
  have a: "distinct ?cells" by simp
  have b: "length ?cells = 7" by simp
  have c: "set ?cells \<subseteq> grid 3 7" by (simp add: grid_def)
  from days_scenario [OF a b c] a b c show ?thesis by simp
qed

text \<open>
  C10. In every state reached by a sequence of operations, in both variants, completed
  lies between 0 and habits times time slots, remaining is not negative and the
  percentage lies between 0 and 100. Completed is the number of cells inside the
  current grid that read as checked, so an entry outside the grid does not count:
  toggling a cell outside the grid leaves all three statistics as they are.
\<close>

theorem stats_within_bounds:
  "(let s = run_weeks acts; st = stats_weeks s in
      0 \<le> completed st \<and> completed st \<le> habits s * weeks s \<and> 0 \<le> remaining st
      \<and> 0 \<le> percentage st \<and> percentage st \<le> 100
      \<and> completed st = int (card (checkedCells (checkedState s) (habits s) (weeks s)))
      \<and> (\<forall>h t v. (h, t) \<notin> grid (habits s) (weeks s) \<longrightarrow>
            stats_weeks (handleCheckChange h t v s) = st))
   \<and> (let s = run_days dacts; st = stats_days s in
      0 \<le> completed st \<and> completed st \<le> habits s * 7 \<and> 0 \<le> remaining st
      \<and> 0 \<le> percentage st \<and> percentage st \<le> 100
      \<and> completed st = int (card (checkedCells (checkedState s) (habits s) 7))
      \<and> (\<forall>h t v. (h, t) \<notin> grid (habits s) 7 \<longrightarrow>
            stats_days (handleCheckChange h t v s) = st))"
proof -
  have w: "0 \<le> habits (run_weeks acts)" "0 \<le> weeks (run_weeks acts)"
    using run_weeks_invariant [of acts] by simp_all
  have d: "0 \<le> habits (run_days dacts)" "(0::int) \<le> 7"
    using run_days_invariant [of dacts] by simp_all
  show ?thesis
    unfolding Let_def stats_weeks_def stats_days_def
    using deriveStats_bounds [OF w] deriveStats_bounds [OF d]
    by (simp add: completed_card deriveStats_setCell_outside)
qed

theorem stats_within_bounds_witness:
  "(5, 5) \<notin> grid (habits (run_weeks [])) (weeks (run_weeks []))
   \<and> stats_weeks (handleCheckChange 5 5 True (run_weeks [])) = stats_weeks (run_weeks [])
   \<and> (0, 9) \<notin> grid (habits (run_days [])) 7
   \<and> stats_days (handleCheckChange 0 9 True (run_days [])) = stats_days (run_days [])"
proof -
  have a: "(5, 5) \<notin> grid (habits (run_weeks [])) (weeks (run_weeks []))"
    by (simp add: run_weeks_def init_weeks_def grid_def)
  have b: "(0, 9) \<notin> grid (habits (run_days [])) 7"
    by (simp add: run_days_def init_days_def grid_def)
  from a b stats_within_bounds [of "[]" "[]"] show ?thesis unfolding Let_def by blast
qed

end
